theory Spec2Isabelle
  imports Main
begin

section \<open>Data model (shared/schema.ts)\<close>

text \<open>
  The rows of the tables \<open>rooms\<close>, \<open>items\<close> and \<open>room_items\<close>. Integer columns are
  JavaScript numbers holding integers, modelled as \<open>int\<close>; a nullable text column is an
  \<open>option\<close>. Field names carry a prefix where two tables use the same column name.
\<close>

record room =
  room_id :: int
  room_name :: string
  room_description :: string
  room_probability :: int
  room_rarity :: string
  room_imageUrl :: string
  room_interiorImageUrl :: "string option"
  room_color :: string
  room_icon :: string
  itemsToShow :: int
  randomizeRepeats :: bool

record item =
  item_id :: int
  item_name :: string
  item_description :: "string option"
  item_imageUrl :: string
  item_rarity :: string

text \<open>\<open>RoomItemWithDetails = RoomItem & { item: Item }\<close>.\<close>

record roomItemWithDetails =
  ri_id :: int
  roomId :: int
  itemId :: int
  probability :: int
  canRepeat :: bool
  maxRepeats :: int
  isGuaranteed :: bool
  item :: item

section \<open>Weighted Room Selector (\<open>DatabaseStorage.getRandomRooms\<close>)\<close>

text \<open>
  The weighted array: every room is pushed \<open>room.probability\<close> times
  (\<open>for (let i = 0; i < room.probability; i++)\<close>, no push for a probability
  of zero or less).
\<close>

definition weightedRooms :: "room list \<Rightarrow> room list" where
  "weightedRooms allRooms =
     concat (map (\<lambda>room. replicate (nat (room_probability room)) room) allRooms)"

text \<open>
  The loop \<open>for (const room of shuffled)\<close> with its two accumulators
  \<open>selectedRooms\<close> and \<open>selectedIds\<close>; \<open>continue\<close> on a room id already selected,
  \<open>break\<close> once \<open>selectedRooms.length === count\<close> (tested after the push only).
\<close>

fun selectLoop :: "int \<Rightarrow> room list \<Rightarrow> room list \<Rightarrow> int set \<Rightarrow> room list" where
  "selectLoop count [] selectedRooms selectedIds = selectedRooms"
| "selectLoop count (room # shuffled) selectedRooms selectedIds =
     (if room_id room \<in> selectedIds then selectLoop count shuffled selectedRooms selectedIds
      else if int (length (selectedRooms @ [room])) = count then selectedRooms @ [room]
      else selectLoop count shuffled (selectedRooms @ [room]) (insert (room_id room) selectedIds))"

text \<open>
  \<open>getRandomRooms(count)\<close>. The catalog \<open>allRooms\<close> is what \<open>getRooms()\<close> read from the
  table. The shuffle \<open>[...weightedRooms].sort(() => 0.5 - Math.random())\<close> is the injected
  parameter \<open>shuffle\<close>: the only place where the random source is used.
\<close>

definition getRandomRooms :: "(room list \<Rightarrow> room list) \<Rightarrow> room list \<Rightarrow> int \<Rightarrow> room list" where
  "getRandomRooms shuffle allRooms count =
     (if int (length allRooms) \<le> count then allRooms
      else selectLoop count (shuffle (weightedRooms allRooms)) [] {})"

section \<open>Weighted Item Drafter (\<open>DatabaseStorage.getRandomRoomItemsWithDetails\<close>)\<close>

text \<open>\<open>throw new Error(`Room with ID ${roomId} not found`)\<close>.\<close>

datatype error = RoomNotFound

text \<open>
  The number of copies of one assignment in the pool:
  \<open>probability = roomItem.probability || 100\<close> and
  \<open>copies = Math.max(1, Math.floor(probability / 10))\<close>. On integers the floor of the
  quotient is \<open>div\<close>, also below zero.
\<close>

definition copies :: "roomItemWithDetails \<Rightarrow> int" where
  "copies roomItem =
     (let probability = (if probability roomItem = 0 then 100 else probability roomItem)
      in max 1 (probability div 10))"

definition buildItemPool :: "roomItemWithDetails list \<Rightarrow> roomItemWithDetails list" where
  "buildItemPool allRoomItems =
     concat (map (\<lambda>roomItem. replicate (nat (copies roomItem)) roomItem) allRoomItems)"

text \<open>\<open>roomItem.maxRepeats || 1\<close>: zero counts as unset, any other value is kept.\<close>

definition maxRepeatsOr1 :: "roomItemWithDetails \<Rightarrow> int" where
  "maxRepeatsOr1 roomItem = (if maxRepeats roomItem = 0 then 1 else maxRepeats roomItem)"

text \<open>
  The variables of the consumption loop: the queue \<open>itemPool\<close>, the map
  \<open>itemRepeatCounts\<close> (keyed by \<open>roomItem.itemId\<close>) and \<open>result\<close>. The map
  \<open>selectedItems\<close> of the source is never read or written and is left out.
\<close>

record drawState =
  itemPool :: "roomItemWithDetails list"
  itemRepeatCounts :: "int \<Rightarrow> nat option"
  result :: "roomItemWithDetails list"

text \<open>\<open>while (result.length < count && itemPool.length > 0)\<close>.\<close>

definition loopCond :: "int \<Rightarrow> drawState \<Rightarrow> bool" where
  "loopCond count s \<longleftrightarrow> int (length (result s)) < count \<and> itemPool s \<noteq> []"

text \<open>
  One iteration of the loop body. \<open>itemPool.shift()\<close> takes the head of the queue (the
  body only runs on a non-empty queue); \<open>itemRepeatCounts.get(roomItem.itemId) || 0\<close>
  reads the counter; each \<open>continue\<close> drops the entry; otherwise the entry is pushed on
  \<open>result\<close>, the counter is set to \<open>currentRepeatCount + 1\<close>, and the entry is pushed back
  at the end of the queue under the four conditions of the last \<open>if\<close>.
\<close>

definition loopBody :: "room \<Rightarrow> int \<Rightarrow> drawState \<Rightarrow> drawState" where
  "loopBody room count s =
     (case itemPool s of
        [] \<Rightarrow> s
      | roomItem # rest \<Rightarrow>
          (let currentRepeatCount =
                 (case itemRepeatCounts s (itemId roomItem) of None \<Rightarrow> 0 | Some c \<Rightarrow> c)
           in if \<not> canRepeat roomItem \<and> currentRepeatCount > 0 then s\<lparr>itemPool := rest\<rparr>
              else if canRepeat roomItem \<and> int currentRepeatCount \<ge> maxRepeatsOr1 roomItem
                then s\<lparr>itemPool := rest\<rparr>
              else \<lparr>itemPool =
                      (if randomizeRepeats room \<and> canRepeat roomItem \<and>
                          int currentRepeatCount + 1 < maxRepeatsOr1 roomItem \<and>
                          int (length (result s @ [roomItem])) < count
                       then rest @ [roomItem] else rest),
                    itemRepeatCounts =
                      (itemRepeatCounts s)(itemId roomItem \<mapsto> currentRepeatCount + 1),
                    result = result s @ [roomItem]\<rparr>))"

text \<open>
  The loop itself. It is total: every iteration either lengthens \<open>result\<close> (towards
  \<open>count\<close>) or shortens the queue and leaves \<open>result\<close> alone.
\<close>

function drawLoop :: "room \<Rightarrow> int \<Rightarrow> drawState \<Rightarrow> drawState" where
  "drawLoop room count s =
     (if loopCond count s then drawLoop room count (loopBody room count s) else s)"
  by pat_completeness auto
termination
proof (relation "measures [\<lambda>(room, count, s). nat (count - int (length (result s))),
                           \<lambda>(room, count, s). length (itemPool s)]")
  show "wf (measures [\<lambda>(room, count, s). nat (count - int (length (result s))),
                      \<lambda>(room, count, s). length (itemPool s)])"
    by simp
next
  fix room :: room and count :: int and s :: drawState
  assume "loopCond count s"
  then show "((room, count, loopBody room count s), (room, count, s))
        \<in> measures [\<lambda>(room, count, s). nat (count - int (length (result s))),
                     \<lambda>(room, count, s). length (itemPool s)]"
    by (cases "itemPool s") (auto simp: loopCond_def loopBody_def Let_def)
qed

text \<open>The number of iterations the same loop executes from a state.\<close>

function drawLoopIterations :: "room \<Rightarrow> int \<Rightarrow> drawState \<Rightarrow> nat" where
  "drawLoopIterations room count s =
     (if loopCond count s then Suc (drawLoopIterations room count (loopBody room count s)) else 0)"
  by pat_completeness auto
termination
proof (relation "measures [\<lambda>(room, count, s). nat (count - int (length (result s))),
                           \<lambda>(room, count, s). length (itemPool s)]")
  show "wf (measures [\<lambda>(room, count, s). nat (count - int (length (result s))),
                      \<lambda>(room, count, s). length (itemPool s)])"
    by simp
next
  fix room :: room and count :: int and s :: drawState
  assume "loopCond count s"
  then show "((room, count, loopBody room count s), (room, count, s))
        \<in> measures [\<lambda>(room, count, s). nat (count - int (length (result s))),
                     \<lambda>(room, count, s). length (itemPool s)]"
    by (cases "itemPool s") (auto simp: loopCond_def loopBody_def Let_def)
qed

declare drawLoop.simps [simp del] drawLoopIterations.simps [simp del]

text \<open>
  The state the loop starts from: the replication pool after
  \<open>itemPool.sort(() => 0.5 - Math.random())\<close> (the injected \<open>shuffle\<close>), no counters,
  an empty result.
\<close>

definition initialState ::
  "(roomItemWithDetails list \<Rightarrow> roomItemWithDetails list) \<Rightarrow> roomItemWithDetails list \<Rightarrow> drawState" where
  "initialState shuffle allRoomItems =
     \<lparr>itemPool = shuffle (buildItemPool allRoomItems), itemRepeatCounts = Map.empty, result = []\<rparr>"

text \<open>
  \<open>getRandomRoomItemsWithDetails(roomId, count)\<close>. \<open>roomOpt\<close> is what
  \<open>getRoomById(roomId)\<close> returned and \<open>allRoomItems\<close> what
  \<open>getRoomItemsWithDetails(roomId)\<close> returned.
\<close>

definition getRandomRoomItemsWithDetails ::
  "(roomItemWithDetails list \<Rightarrow> roomItemWithDetails list) \<Rightarrow> room option \<Rightarrow>
   roomItemWithDetails list \<Rightarrow> int \<Rightarrow> error + roomItemWithDetails list" where
  "getRandomRoomItemsWithDetails shuffle roomOpt allRoomItems count =
     (case roomOpt of
        None \<Rightarrow> Inl RoomNotFound
      | Some room \<Rightarrow>
          if int (length allRoomItems) \<le> count then Inr allRoomItems
          else Inr (result (drawLoop room count (initialState shuffle allRoomItems))))"

section \<open>The in-memory sibling (\<open>MemStorage.getRandomRoomItemsWithDetails\<close>)\<close>

text \<open>
  \<open>Array.prototype.slice(0, count)\<close>: a negative \<open>count\<close> is an offset from the end.
\<close>

definition slice0 :: "'a list \<Rightarrow> int \<Rightarrow> 'a list" where
  "slice0 xs count =
     (if count < 0 then take (nat (int (length xs) + count)) xs else take (nat count) xs)"

text \<open>
  The in-memory backend separates the guaranteed assignments first and runs the same
  loop on the others, with \<open>remainingCount\<close> in the place of \<open>count\<close>.
\<close>

definition MemStorage_getRandomRoomItemsWithDetails ::
  "(roomItemWithDetails list \<Rightarrow> roomItemWithDetails list) \<Rightarrow> room option \<Rightarrow>
   roomItemWithDetails list \<Rightarrow> int \<Rightarrow> error + roomItemWithDetails list" where
  "MemStorage_getRandomRoomItemsWithDetails shuffle roomOpt allRoomItems count =
     (case roomOpt of
        None \<Rightarrow> Inl RoomNotFound
      | Some room \<Rightarrow>
          (let guaranteedItems = filter isGuaranteed allRoomItems;
               randomItems = filter (\<lambda>item. \<not> isGuaranteed item) allRoomItems
           in if int (length guaranteedItems) \<ge> count then Inr (slice0 guaranteedItems count)
              else let remainingCount = count - int (length guaranteedItems)
                   in if randomItems = [] \<or> remainingCount \<le> 0 then Inr guaranteedItems
                      else if int (length randomItems) \<le> remainingCount
                        then Inr (guaranteedItems @ randomItems)
                      else Inr (guaranteedItems @
                                result (drawLoop room remainingCount
                                          (initialState shuffle randomItems)))))"

section \<open>Notions used in the statements and proofs\<close>

text \<open>
  What the injected shuffle is assumed to return where a property depends on it: a
  rearrangement of its argument, every element as often as before.
\<close>

definition isPermutationOf :: "'a list \<Rightarrow> 'a list \<Rightarrow> bool" where
  "isPermutationOf ys xs \<longleftrightarrow> (\<forall>x \<in> set xs \<union> set ys. count_list ys x = count_list xs x)"

text \<open>The counter the loop body reads for an item id.\<close>

definition currentRepeatCount :: "drawState \<Rightarrow> int \<Rightarrow> nat" where
  "currentRepeatCount s k = (case itemRepeatCounts s k of None \<Rightarrow> 0 | Some c \<Rightarrow> c)"

text \<open>The two \<open>continue\<close> conditions of the loop body, for the entry \<open>x\<close> at the head.\<close>

definition skipped :: "drawState \<Rightarrow> roomItemWithDetails \<Rightarrow> bool" where
  "skipped s x \<longleftrightarrow>
     (\<not> canRepeat x \<and> currentRepeatCount s (itemId x) > 0) \<or>
     (canRepeat x \<and> maxRepeatsOr1 x \<le> int (currentRepeatCount s (itemId x)))"

text \<open>
  The loop invariant behind the repeat cap: the occurrences of an assignment in
  \<open>result\<close> are bounded by the counter of its item id and by its cap.
\<close>

definition capInv :: "roomItemWithDetails \<Rightarrow> drawState \<Rightarrow> bool" where
  "capInv a s \<longleftrightarrow>
     int (count_list (result s) a) \<le>
       min (int (currentRepeatCount s (itemId a)))
           (if canRepeat a then max 0 (maxRepeatsOr1 a) else 1)"

text \<open>
  Rows for the examples: a room with the given id, probability and \<open>randomizeRepeats\<close>,
  and an assignment with the given id, item id, probability, \<open>canRepeat\<close>, \<open>maxRepeats\<close>
  and \<open>isGuaranteed\<close>. The text columns are empty.
\<close>

definition mkRoom :: "int \<Rightarrow> int \<Rightarrow> bool \<Rightarrow> room" where
  "mkRoom i p r =
     \<lparr>room_id = i, room_name = [], room_description = [], room_probability = p,
      room_rarity = [], room_imageUrl = [], room_interiorImageUrl = None, room_color = [],
      room_icon = [], itemsToShow = 3, randomizeRepeats = r\<rparr>"

definition mkRoomItem :: "int \<Rightarrow> int \<Rightarrow> int \<Rightarrow> bool \<Rightarrow> int \<Rightarrow> bool \<Rightarrow> roomItemWithDetails" where
  "mkRoomItem i k p c m g =
     \<lparr>ri_id = i, roomId = 1, itemId = k, probability = p, canRepeat = c, maxRepeats = m,
      isGuaranteed = g,
      item = \<lparr>item_id = k, item_name = [], item_description = None, item_imageUrl = [],
              item_rarity = []\<rparr>\<rparr>"

section \<open>Permutations\<close>

lemma isPermutationOf_count: "isPermutationOf ys xs \<Longrightarrow> count_list ys x = count_list xs x"
proof (cases "x \<in> set xs \<union> set ys")
  case True
  assume "isPermutationOf ys xs"
  with True show ?thesis by (simp add: isPermutationOf_def)
next
  case False
  then have "count_list ys x = 0" "count_list xs x = 0"
    by (simp_all add: count_list_0_iff)
  then show ?thesis by simp
qed

lemma isPermutationOf_set: "isPermutationOf ys xs \<Longrightarrow> set ys = set xs"
proof -
  assume p: "isPermutationOf ys xs"
  have "x \<in> set ys \<longleftrightarrow> x \<in> set xs" for x
    using isPermutationOf_count [OF p, of x] count_list_0_iff [of ys x] count_list_0_iff [of xs x]
    by auto
  then show ?thesis by blast
qed

lemma isPermutationOf_length: "isPermutationOf ys xs \<Longrightarrow> length ys = length xs"
proof -
  assume p: "isPermutationOf ys xs"
  have "length ys = sum (count_list ys) (set ys)"
    by (simp add: sum_count_set)
  also have "\<dots> = sum (count_list xs) (set xs)"
    using isPermutationOf_set [OF p] isPermutationOf_count [OF p] by simp
  also have "\<dots> = length xs"
    by (simp add: sum_count_set)
  finally show ?thesis .
qed

lemma isPermutationOf_rev: "isPermutationOf (rev xs) xs"
  by (simp add: isPermutationOf_def)

lemma isPermutationOf_id: "isPermutationOf (id xs) xs"
  by (simp add: isPermutationOf_def)

section \<open>Properties of the Room Selector\<close>

lemma selectLoop_distinct:
  "distinct (map room_id selectedRooms) \<Longrightarrow> room_id ` set selectedRooms \<subseteq> selectedIds \<Longrightarrow>
   distinct (map room_id (selectLoop count shuffled selectedRooms selectedIds))"
proof (induction shuffled arbitrary: selectedRooms selectedIds)
  case Nil
  then show ?case by simp
next
  case (Cons room shuffled)
  show ?case
  proof (cases "room_id room \<in> selectedIds")
    case True
    with Cons show ?thesis by simp
  next
    case False
    with Cons.prems have fresh: "room_id room \<notin> room_id ` set selectedRooms"
      by blast
    have d: "distinct (map room_id (selectedRooms @ [room]))"
      using Cons.prems(1) fresh by simp
    have s: "room_id ` set (selectedRooms @ [room]) \<subseteq> insert (room_id room) selectedIds"
      using Cons.prems(2) by auto
    show ?thesis
      using False d Cons.IH [OF d s] by simp
  qed
qed

lemma set_weightedRooms:
  "set (weightedRooms allRooms) = {room \<in> set allRooms. 1 \<le> room_probability room}"
  by (auto simp: weightedRooms_def)

lemma selectLoop_length_below:
  "int (length selectedRooms) < count \<Longrightarrow>
   length (selectLoop count shuffled selectedRooms selectedIds) =
     min (nat count) (length selectedRooms + card (room_id ` set shuffled - selectedIds))"
proof (induction shuffled arbitrary: selectedRooms selectedIds)
  case Nil
  then show ?case by simp
next
  case (Cons room shuffled)
  show ?case
  proof (cases "room_id room \<in> selectedIds")
    case True
    then have "room_id ` set (room # shuffled) - selectedIds = room_id ` set shuffled - selectedIds"
      by auto
    with True Cons show ?thesis by simp
  next
    case False
    have split: "room_id ` set (room # shuffled) - selectedIds =
                 insert (room_id room) (room_id ` set shuffled - insert (room_id room) selectedIds)"
      using False by auto
    have c: "card (room_id ` set (room # shuffled) - selectedIds) =
             Suc (card (room_id ` set shuffled - insert (room_id room) selectedIds))"
      unfolding split by simp
    show ?thesis
    proof (cases "int (length (selectedRooms @ [room])) = count")
      case True
      with False c show ?thesis by auto
    next
      case stop: False
      with Cons.prems have "int (length (selectedRooms @ [room])) < count" by simp
      from Cons.IH [OF this] False stop c show ?thesis by simp
    qed
  qed
qed

lemma selectLoop_length_above:
  "count \<le> int (length selectedRooms) \<Longrightarrow>
   length (selectLoop count shuffled selectedRooms selectedIds) =
     length selectedRooms + card (room_id ` set shuffled - selectedIds)"
proof (induction shuffled arbitrary: selectedRooms selectedIds)
  case Nil
  then show ?case by simp
next
  case (Cons room shuffled)
  show ?case
  proof (cases "room_id room \<in> selectedIds")
    case True
    then have "room_id ` set (room # shuffled) - selectedIds = room_id ` set shuffled - selectedIds"
      by auto
    with True Cons show ?thesis by simp
  next
    case False
    have split: "room_id ` set (room # shuffled) - selectedIds =
                 insert (room_id room) (room_id ` set shuffled - insert (room_id room) selectedIds)"
      using False by auto
    have c: "card (room_id ` set (room # shuffled) - selectedIds) =
             Suc (card (room_id ` set shuffled - insert (room_id room) selectedIds))"
      unfolding split by simp
    from Cons.prems have stop: "int (length (selectedRooms @ [room])) \<noteq> count" by simp
    from Cons.prems have "count \<le> int (length (selectedRooms @ [room]))" by simp
    from Cons.IH [OF this] False stop c show ?thesis by simp
  qed
qed

text \<open>
  C10: a catalog whose length is at most \<open>count\<close> is returned whole and in its given
  order, whatever the shuffle: no randomisation takes part on this branch.
\<close>

theorem getRandomRooms_small_catalog:
  "int (length allRooms) \<le> count \<Longrightarrow> getRandomRooms shuffle allRooms count = allRooms"
  by (simp add: getRandomRooms_def)

text \<open>A catalog of two rooms with \<open>count = 2\<close>, under the reversing shuffle.\<close>

theorem getRandomRooms_small_catalog_witness:
  "int (length [mkRoom 1 90 True, mkRoom 2 5 True]) \<le> 2 \<and>
   getRandomRooms rev [mkRoom 1 90 True, mkRoom 2 5 True] 2 = [mkRoom 1 90 True, mkRoom 2 5 True]"
proof -
  have h: "int (length [mkRoom 1 90 True, mkRoom 2 5 True]) \<le> 2" by simp
  from h getRandomRooms_small_catalog [OF h, of rev] show ?thesis by simp
qed

text \<open>
  C6: on a catalog whose rooms have pairwise distinct ids, the result of the Room
  Selector has no repeated room id, for every count and every shuffle.
\<close>

theorem getRandomRooms_no_duplicate_ids:
  "distinct (map room_id allRooms) \<Longrightarrow>
   distinct (map room_id (getRandomRooms shuffle allRooms count))"
  by (simp add: getRandomRooms_def selectLoop_distinct)

text \<open>Three rooms, two requested, under the reversing shuffle.\<close>

theorem getRandomRooms_no_duplicate_ids_witness:
  "distinct (map room_id [mkRoom 1 90 True, mkRoom 2 5 True, mkRoom 3 5 True]) \<and>
   distinct (map room_id
     (getRandomRooms rev [mkRoom 1 90 True, mkRoom 2 5 True, mkRoom 3 5 True] 2))"
proof -
  have h: "distinct (map room_id [mkRoom 1 90 True, mkRoom 2 5 True, mkRoom 3 5 True])"
    by (simp add: mkRoom_def)
  from h getRandomRooms_no_duplicate_ids [OF h, of rev 2] show ?thesis by simp
qed

text \<open>
  C4, amended to \<open>count \<ge> 1\<close>: on a catalog with pairwise distinct room ids in which
  every room has probability at least 1, and for a shuffle that permutes the weighted
  array, the result of the Room Selector has exactly \<open>min(count, number of rooms)\<close>
  entries.
\<close>

theorem getRandomRooms_count_bound:
  assumes prob: "\<forall>room \<in> set allRooms. 1 \<le> room_probability room"
    and cnt: "1 \<le> count"
    and ids: "distinct (map room_id allRooms)"
    and perm: "isPermutationOf (shuffle (weightedRooms allRooms)) (weightedRooms allRooms)"
  shows "length (getRandomRooms shuffle allRooms count) = min (nat count) (length allRooms)"
proof (cases "int (length allRooms) \<le> count")
  case True
  then show ?thesis by (simp add: getRandomRooms_def)
next
  case False
  have "set (shuffle (weightedRooms allRooms)) = set allRooms"
    using isPermutationOf_set [OF perm] prob by (auto simp: set_weightedRooms)
  then have "card (room_id ` set (shuffle (weightedRooms allRooms)) - {}) = length allRooms"
    using distinct_card [OF ids] by simp
  with False cnt selectLoop_length_below [of "[]" count "shuffle (weightedRooms allRooms)" "{}"]
  show ?thesis by (simp add: getRandomRooms_def)
qed

text \<open>The catalog with probabilities 90, 5 and 5, two rooms requested.\<close>

theorem getRandomRooms_count_bound_witness:
  "1 \<le> room_probability (mkRoom 1 90 True) \<and> 1 \<le> room_probability (mkRoom 2 5 True) \<and>
   1 \<le> room_probability (mkRoom 3 5 True) \<and> (1::int) \<le> 2 \<and>
   distinct (map room_id [mkRoom 1 90 True, mkRoom 2 5 True, mkRoom 3 5 True]) \<and>
   length (getRandomRooms rev [mkRoom 1 90 True, mkRoom 2 5 True, mkRoom 3 5 True] 2) = 2"
proof -
  let ?c = "[mkRoom 1 90 True, mkRoom 2 5 True, mkRoom 3 5 True]"
  have h1: "\<forall>room \<in> set ?c. 1 \<le> room_probability room" by (simp add: mkRoom_def)
  have h2: "(1::int) \<le> 2" by simp
  have h3: "distinct (map room_id ?c)" by (simp add: mkRoom_def)
  have h4: "isPermutationOf (rev (weightedRooms ?c)) (weightedRooms ?c)"
    by (rule isPermutationOf_rev)
  from h1 h3 getRandomRooms_count_bound [of ?c 2 rev, OF h1 h2 h3 h4] show ?thesis by simp
qed

text \<open>
  With \<open>count = 0\<close> the bound fails: the test \<open>selectedRooms.length === count\<close> follows
  the push, so it never holds and all three rooms are returned where the minimum is 0.
\<close>

theorem count_zero_counterexample:
  "length (getRandomRooms id [mkRoom 1 90 True, mkRoom 2 5 True, mkRoom 3 5 True] 0) \<noteq>
   min (nat 0) (length [mkRoom 1 90 True, mkRoom 2 5 True, mkRoom 3 5 True])"
  by code_simp

section \<open>Properties of the Item Drafter\<close>

lemma drawLoop_invariant_aux:
  "P s \<Longrightarrow> (\<forall>s. P s \<longrightarrow> loopCond count s \<longrightarrow> P (loopBody room count s)) \<Longrightarrow>
   P (drawLoop room count s)"
proof (induction room count s rule: drawLoop.induct)
  case (1 room count s)
  show ?case
  proof (cases "loopCond count s")
    case True
    have "P (loopBody room count s)"
      using "1.prems" True by blast
    with "1.IH" [OF True] "1.prems"(2) have "P (drawLoop room count (loopBody room count s))"
      by blast
    with True show ?thesis by (simp add: drawLoop.simps [of room count s])
  next
    case False
    with "1.prems" show ?thesis by (simp add: drawLoop.simps [of room count s])
  qed
qed

lemma drawLoop_invariant:
  assumes init: "P s" and step: "\<And>s. P s \<Longrightarrow> loopCond count s \<Longrightarrow> P (loopBody room count s)"
  shows "P (drawLoop room count s)"
proof (rule drawLoop_invariant_aux)
  show "P s" by (rule init)
  show "\<forall>s. P s \<longrightarrow> loopCond count s \<longrightarrow> P (loopBody room count s)"
    using step by blast
qed

lemma loopBody_skip:
  "itemPool s = x # rest \<Longrightarrow> skipped s x \<Longrightarrow> loopBody room count s = s\<lparr>itemPool := rest\<rparr>"
  by (auto simp: loopBody_def skipped_def currentRepeatCount_def Let_def)

lemma loopBody_accept:
  assumes "itemPool s = x # rest" and "\<not> skipped s x"
  shows "result (loopBody room count s) = result s @ [x]"
    and "itemRepeatCounts (loopBody room count s) =
           (itemRepeatCounts s)(itemId x \<mapsto> Suc (currentRepeatCount s (itemId x)))"
    and "itemPool (loopBody room count s) = rest \<or> itemPool (loopBody room count s) = rest @ [x]"
  using assms by (auto simp: loopBody_def skipped_def currentRepeatCount_def Let_def)

lemma capInv_step:
  assumes inv: "capInv a s" and run: "loopCond count s"
  shows "capInv a (loopBody room count s)"
proof -
  from run obtain x rest where pool: "itemPool s = x # rest"
    by (cases "itemPool s") (auto simp: loopCond_def)
  show ?thesis
  proof (cases "skipped s x")
    case True
    from loopBody_skip [OF pool True] inv show ?thesis
      by (simp add: capInv_def currentRepeatCount_def)
  next
    case False
    note acc = loopBody_accept [OF pool False, of room count]
    let ?s' = "loopBody room count s"
    have cur': "currentRepeatCount ?s' (itemId a) =
                  (if itemId a = itemId x then Suc (currentRepeatCount s (itemId x))
                   else currentRepeatCount s (itemId a))"
      by (simp add: currentRepeatCount_def acc(2))
    have cnt': "count_list (result ?s') a = count_list (result s) a + (if x = a then 1 else 0)"
      by (simp add: acc(1))
    show ?thesis
    proof (cases "x = a")
      case True
      with False have room: "(canRepeat a \<and> int (currentRepeatCount s (itemId a)) < maxRepeatsOr1 a) \<or>
                       (\<not> canRepeat a \<and> currentRepeatCount s (itemId a) = 0)"
        by (auto simp: skipped_def)
      with inv True cur' cnt' show ?thesis
        by (auto simp: capInv_def)
    next
      case False
      with inv cur' cnt' show ?thesis
        by (auto simp: capInv_def)
    qed
  qed
qed

lemma capInv_init: "capInv a (initialState shuffle allRoomItems)"
  by (simp add: capInv_def initialState_def currentRepeatCount_def)

lemma drawLoop_cap:
  "int (count_list (result (drawLoop room count (initialState shuffle allRoomItems))) a) \<le>
     (if canRepeat a then max 0 (maxRepeatsOr1 a) else 1)"
proof -
  have "capInv a (drawLoop room count (initialState shuffle allRoomItems))"
    by (rule drawLoop_invariant [where P = "capInv a"]) (simp_all add: capInv_init capInv_step)
  then show ?thesis by (simp add: capInv_def)
qed

lemma distinct_count_list_le1: "distinct xs \<Longrightarrow> count_list xs x \<le> 1"
  by (induction xs) (auto simp: count_list_0_iff)

lemma drawLoop_funpow:
  "drawLoop room count s = (loopBody room count ^^ drawLoopIterations room count s) s \<and>
   \<not> loopCond count ((loopBody room count ^^ drawLoopIterations room count s) s) \<and>
   (\<forall>j < drawLoopIterations room count s. loopCond count ((loopBody room count ^^ j) s))"
proof (induction room count s rule: drawLoop.induct)
  case (1 room count s)
  show ?case
  proof (cases "loopCond count s")
    case True
    let ?n = "drawLoopIterations room count (loopBody room count s)"
    have n: "drawLoopIterations room count s = Suc ?n"
      using True by (simp add: drawLoopIterations.simps [of room count s])
    have d: "drawLoop room count s = drawLoop room count (loopBody room count s)"
      using True by (simp add: drawLoop.simps [of room count s])
    note IH = "1.IH" [OF True]
    have "loopCond count ((loopBody room count ^^ j) s)" if "j < Suc ?n" for j
    proof (cases j)
      case 0
      with True show ?thesis by simp
    next
      case (Suc i)
      with that IH show ?thesis by (simp add: funpow_swap1)
    qed
    with IH n d show ?thesis by (simp add: funpow_swap1)
  next
    case False
    then show ?thesis
      by (simp add: drawLoop.simps [of room count s] drawLoopIterations.simps [of room count s])
  qed
qed

lemma skipped_counted:
  assumes "skipped s x" and "canRepeat x \<longrightarrow> 1 \<le> maxRepeatsOr1 x"
  shows "itemId x \<in> dom (itemRepeatCounts s)"
proof -
  from assms have "currentRepeatCount s (itemId x) > 0"
    by (auto simp: skipped_def)
  then show ?thesis
    by (auto simp: currentRepeatCount_def split: option.splits)
qed

lemma iterations_le_rest:
  assumes "\<forall>x \<in> set rest. canRepeat x \<longrightarrow> 1 \<le> maxRepeatsOr1 x"
    and "count \<le> int (length (result s)) + int (card (itemId ` set rest - dom (itemRepeatCounts s)))"
    and "itemPool s = rest @ extra"
  shows "drawLoopIterations room count s \<le> length rest"
  using assms
proof (induction rest arbitrary: s extra)
  case Nil
  then have "\<not> loopCond count s" by (simp add: loopCond_def)
  then show ?case by (simp add: drawLoopIterations.simps [of room count s])
next
  case (Cons x rest)
  show ?case
  proof (cases "loopCond count s")
    case False
    then show ?thesis by (simp add: drawLoopIterations.simps [of room count s])
  next
    case True
    let ?s' = "loopBody room count s"
    have it: "drawLoopIterations room count s = Suc (drawLoopIterations room count ?s')"
      using True by (simp add: drawLoopIterations.simps [of room count s])
    have pool: "itemPool s = x # (rest @ extra)"
      using Cons.prems(3) by simp
    have ok: "\<forall>x \<in> set rest. canRepeat x \<longrightarrow> 1 \<le> maxRepeatsOr1 x"
      using Cons.prems(1) by simp
    have "drawLoopIterations room count ?s' \<le> length rest"
    proof (cases "skipped s x")
      case skip: True
      have s': "?s' = s\<lparr>itemPool := rest @ extra\<rparr>"
        by (rule loopBody_skip [OF pool skip])
      have "itemId x \<in> dom (itemRepeatCounts s)"
        using skip Cons.prems(1) by (intro skipped_counted) simp_all
      then have "itemId ` set (x # rest) - dom (itemRepeatCounts s) =
                 itemId ` set rest - dom (itemRepeatCounts s)"
        by auto
      with Cons.prems(2)
      have "count \<le> int (length (result ?s')) +
                     int (card (itemId ` set rest - dom (itemRepeatCounts ?s')))"
        by (simp add: s')
      moreover have "itemPool ?s' = rest @ extra" by (simp add: s')
      ultimately show ?thesis using ok by (intro Cons.IH)
    next
      case acc: False
      note a = loopBody_accept [OF pool acc, of room count]
      have sub: "itemId ` set (x # rest) - dom (itemRepeatCounts s) \<subseteq>
                 insert (itemId x) (itemId ` set rest - dom (itemRepeatCounts ?s'))"
        by (auto simp: a(2))
      have "card (itemId ` set (x # rest) - dom (itemRepeatCounts s)) \<le>
            card (insert (itemId x) (itemId ` set rest - dom (itemRepeatCounts ?s')))"
        by (rule card_mono [OF _ sub]) simp
      also have "\<dots> \<le> Suc (card (itemId ` set rest - dom (itemRepeatCounts ?s')))"
        by (rule card_insert_le_m1) simp_all
      finally have "count \<le> int (length (result ?s')) +
                     int (card (itemId ` set rest - dom (itemRepeatCounts ?s')))"
        using Cons.prems(2) by (simp add: a(1))
      moreover from a(3) obtain extra' where "itemPool ?s' = rest @ extra'"
        by auto
      ultimately show ?thesis using ok by (intro Cons.IH)
    qed
    with it show ?thesis by simp
  qed
qed

lemma set_buildItemPool: "set (buildItemPool allRoomItems) = set allRoomItems"
  by (auto simp: buildItemPool_def copies_def Let_def)

lemma MemStorage_guaranteed:
  assumes "int (length (filter isGuaranteed allRoomItems)) \<le> count"
    and "MemStorage_getRandomRoomItemsWithDetails shuffle (Some room) allRoomItems count = Inr res"
    and "a \<in> set allRoomItems" and "isGuaranteed a"
  shows "a \<in> set res"
proof -
  let ?g = "filter isGuaranteed allRoomItems"
  have a: "a \<in> set ?g" using assms(3,4) by simp
  show ?thesis
  proof (cases "count \<le> int (length ?g)")
    case True
    with assms(1) have "count = int (length ?g)" by simp
    then have "slice0 ?g count = ?g" by (simp add: slice0_def)
    with True assms(2) have "res = ?g"
      by (simp add: MemStorage_getRandomRoomItemsWithDetails_def Let_def)
    with a show ?thesis by simp
  next
    case False
    with assms(2) obtain tl where "res = ?g @ tl"
      by (auto simp: MemStorage_getRandomRoomItemsWithDetails_def Let_def split: if_splits)
    with a show ?thesis by simp
  qed
qed

text \<open>
  C9: a pool whose length is at most \<open>count\<close> is returned unchanged, every assignment
  once and in stored order, whatever the shuffle, the flags and the probabilities.
\<close>

theorem small_pool_returned_unchanged:
  "int (length allRoomItems) \<le> count \<Longrightarrow>
   getRandomRoomItemsWithDetails shuffle (Some room) allRoomItems count = Inr allRoomItems"
  by (simp add: getRandomRoomItemsWithDetails_def)

text \<open>Two assignments, one of them guaranteed, five requested.\<close>

theorem small_pool_returned_unchanged_witness:
  "int (length [mkRoomItem 1 1 100 True 3 True, mkRoomItem 2 2 50 False 1 False]) \<le> 5 \<and>
   getRandomRoomItemsWithDetails rev (Some (mkRoom 1 50 True))
     [mkRoomItem 1 1 100 True 3 True, mkRoomItem 2 2 50 False 1 False] 5 =
   Inr [mkRoomItem 1 1 100 True 3 True, mkRoomItem 2 2 50 False 1 False]"
proof -
  have h: "int (length [mkRoomItem 1 1 100 True 3 True, mkRoomItem 2 2 50 False 1 False]) \<le> 5"
    by simp
  from h small_pool_returned_unchanged [OF h, of rev "mkRoom 1 50 True"] show ?thesis by simp
qed

text \<open>
  C3, amended: for a pool of exactly one assignment with probability 100, \<open>canRepeat\<close>
  true, \<open>maxRepeats\<close> 3 and \<open>isGuaranteed\<close> false, a room with \<open>randomizeRepeats\<close> true and
  \<open>count = 3\<close>, the Item Drafter returns that assignment exactly once.
\<close>

theorem single_assignment_returned_once:
  assumes "probability a = 100" and "canRepeat a" and "maxRepeats a = 3"
    and "\<not> isGuaranteed a" and "randomizeRepeats room"
  shows "getRandomRoomItemsWithDetails shuffle (Some room) [a] 3 = Inr [a]"
  by (simp add: getRandomRoomItemsWithDetails_def)

text \<open>The scenario itself, under the reversing shuffle.\<close>

theorem single_assignment_returned_once_witness:
  "probability (mkRoomItem 1 1 100 True 3 False) = 100 \<and>
   canRepeat (mkRoomItem 1 1 100 True 3 False) \<and>
   maxRepeats (mkRoomItem 1 1 100 True 3 False) = 3 \<and>
   \<not> isGuaranteed (mkRoomItem 1 1 100 True 3 False) \<and>
   randomizeRepeats (mkRoom 1 50 True) \<and>
   getRandomRoomItemsWithDetails rev (Some (mkRoom 1 50 True)) [mkRoomItem 1 1 100 True 3 False] 3 =
     Inr [mkRoomItem 1 1 100 True 3 False]"
proof -
  have h: "probability (mkRoomItem 1 1 100 True 3 False) = 100"
    "canRepeat (mkRoomItem 1 1 100 True 3 False)"
    "maxRepeats (mkRoomItem 1 1 100 True 3 False) = 3"
    "\<not> isGuaranteed (mkRoomItem 1 1 100 True 3 False)"
    "randomizeRepeats (mkRoom 1 50 True)"
    by (simp_all add: mkRoomItem_def mkRoom_def)
  from h single_assignment_returned_once [OF h, of rev] show ?thesis by simp
qed

text \<open>
  The result of the scenario is not the assignment three times: the pool is no longer
  than \<open>count\<close>, so it is returned as it is and the loop never runs.
\<close>

theorem single_assignment_counterexample:
  "getRandomRoomItemsWithDetails id (Some (mkRoom 1 50 True)) [mkRoomItem 1 1 100 True 3 False] 3 \<noteq>
     Inr [mkRoomItem 1 1 100 True 3 False, mkRoomItem 1 1 100 True 3 False,
          mkRoomItem 1 1 100 True 3 False]"
  by (simp add: getRandomRoomItemsWithDetails_def)

text \<open>
  C5: in one result of the Item Drafter an assignment with \<open>canRepeat\<close> true occurs at
  most \<open>maxRepeats\<close> times (once when \<open>maxRepeats\<close> is unset, that is 0), and an
  assignment with \<open>canRepeat\<close> false at most once. The pool holds no row twice.
\<close>

theorem repeat_cap_respected:
  assumes "distinct allRoomItems"
    and "getRandomRoomItemsWithDetails shuffle (Some room) allRoomItems count = Inr res"
  shows "int (count_list res a) \<le> (if canRepeat a then max 1 (maxRepeats a) else 1)"
proof (cases "int (length allRoomItems) \<le> count")
  case True
  with assms(2) have "res = allRoomItems" by (simp add: getRandomRoomItemsWithDetails_def)
  with distinct_count_list_le1 [OF assms(1), of a] show ?thesis by auto
next
  case False
  with assms(2) have "res = result (drawLoop room count (initialState shuffle allRoomItems))"
    by (simp add: getRandomRoomItemsWithDetails_def)
  with drawLoop_cap [of room count shuffle allRoomItems a] show ?thesis
    by (auto simp: maxRepeatsOr1_def split: if_splits)
qed


text \<open>
  A repeatable assignment with two copies in the pool and \<open>maxRepeats = 2\<close> is drawn,
  pushed back and drawn again.
\<close>

theorem repeat_cap_respected_witness:
  "distinct [mkRoomItem 1 1 20 True 2 False, mkRoomItem 2 2 10 False 1 False,
             mkRoomItem 3 3 10 False 1 False] \<and>
   getRandomRoomItemsWithDetails id (Some (mkRoom 1 50 True))
     [mkRoomItem 1 1 20 True 2 False, mkRoomItem 2 2 10 False 1 False,
      mkRoomItem 3 3 10 False 1 False] 2 =
     Inr [mkRoomItem 1 1 20 True 2 False, mkRoomItem 1 1 20 True 2 False] \<and>
   int (count_list [mkRoomItem 1 1 20 True 2 False, mkRoomItem 1 1 20 True 2 False]
          (mkRoomItem 1 1 20 True 2 False)) \<le> 2"
proof -
  let ?a = "mkRoomItem 1 1 20 True 2 False"
  let ?pool = "[?a, mkRoomItem 2 2 10 False 1 False, mkRoomItem 3 3 10 False 1 False]"
  have h1: "distinct ?pool" by (simp add: mkRoomItem_def)
  have h2: "getRandomRoomItemsWithDetails id (Some (mkRoom 1 50 True)) ?pool 2 = Inr [?a, ?a]"
    by code_simp
  from h1 h2 repeat_cap_respected [OF h1 h2, of ?a] show ?thesis
    by (simp add: mkRoomItem_def)
qed

text \<open>
  C7, amended: when the item ids of the pool are pairwise distinct, every repeatable
  assignment has \<open>maxRepeats \<ge> 0\<close> and the shuffle permutes the replication pool, the
  consumption loop (reached when the pool is longer than \<open>count\<close>) executes at most as
  many iterations as the replication pool has entries, and it exits after them.
\<close>

theorem loop_iterations_bound:
  assumes ids: "distinct (map itemId allRoomItems)"
    and caps: "\<forall>x \<in> set allRoomItems. canRepeat x \<longrightarrow> 0 \<le> maxRepeats x"
    and perm: "isPermutationOf (shuffle (buildItemPool allRoomItems)) (buildItemPool allRoomItems)"
    and reached: "count < int (length allRoomItems)"
  shows "drawLoopIterations room count (initialState shuffle allRoomItems)
           \<le> length (buildItemPool allRoomItems) \<and>
         drawLoop room count (initialState shuffle allRoomItems) =
           (loopBody room count ^^ drawLoopIterations room count (initialState shuffle allRoomItems))
             (initialState shuffle allRoomItems) \<and>
         \<not> loopCond count (drawLoop room count (initialState shuffle allRoomItems))"
proof -
  let ?rest = "shuffle (buildItemPool allRoomItems)"
  let ?s = "initialState shuffle allRoomItems"
  have set_rest: "set ?rest = set allRoomItems"
    using isPermutationOf_set [OF perm] by (simp add: set_buildItemPool)
  have "card (itemId ` set ?rest) = length allRoomItems"
    using distinct_card [OF ids] by (simp add: set_rest)
  then have 1: "count \<le> int (length (result ?s)) +
                   int (card (itemId ` set ?rest - dom (itemRepeatCounts ?s)))"
    using reached by (simp add: initialState_def)
  have 2: "\<forall>x \<in> set ?rest. canRepeat x \<longrightarrow> 1 \<le> maxRepeatsOr1 x"
    using caps by (auto simp: set_rest maxRepeatsOr1_def)
  have 3: "itemPool ?s = ?rest @ []"
    by (simp add: initialState_def)
  have "drawLoopIterations room count ?s \<le> length ?rest"
    by (rule iterations_le_rest [OF 2 1 3])
  then have "drawLoopIterations room count ?s \<le> length (buildItemPool allRoomItems)"
    by (simp add: isPermutationOf_length [OF perm])
  with drawLoop_funpow [of room count ?s] show ?thesis
    by simp
qed

text \<open>Three assignments, the first with two copies; two requested.\<close>

theorem loop_iterations_bound_witness:
  "distinct (map itemId [mkRoomItem 1 1 20 True 2 False, mkRoomItem 2 2 10 False 1 False,
                         mkRoomItem 3 3 10 False 1 False]) \<and>
   (2::int) < int (length [mkRoomItem 1 1 20 True 2 False, mkRoomItem 2 2 10 False 1 False,
                           mkRoomItem 3 3 10 False 1 False]) \<and>
   drawLoopIterations (mkRoom 1 50 True) 2
     (initialState id [mkRoomItem 1 1 20 True 2 False, mkRoomItem 2 2 10 False 1 False,
                       mkRoomItem 3 3 10 False 1 False])
     \<le> length (buildItemPool [mkRoomItem 1 1 20 True 2 False, mkRoomItem 2 2 10 False 1 False,
                               mkRoomItem 3 3 10 False 1 False])"
proof -
  let ?pool = "[mkRoomItem 1 1 20 True 2 False, mkRoomItem 2 2 10 False 1 False,
                mkRoomItem 3 3 10 False 1 False]"
  have h1: "distinct (map itemId ?pool)" by (simp add: mkRoomItem_def)
  have h2: "\<forall>x \<in> set ?pool. canRepeat x \<longrightarrow> 0 \<le> maxRepeats x" by (simp add: mkRoomItem_def)
  have h3: "isPermutationOf (id (buildItemPool ?pool)) (buildItemPool ?pool)"
    by (rule isPermutationOf_id)
  have h4: "(2::int) < int (length ?pool)" by simp
  from h1 h4 loop_iterations_bound [of ?pool id 2 "mkRoom 1 50 True", OF h1 h2 h3 h4]
  show ?thesis by simp
qed

text \<open>
  Without the condition on the item ids the bound fails. Three non-repeatable
  assignments refer to the same item and share one counter: the first is taken, the
  second and the third are skipped; the fourth entry is taken, pushed back and taken
  again. That makes five iterations on a pool of four entries.
\<close>

theorem loop_iterations_counterexample:
  "\<not> drawLoopIterations (mkRoom 1 50 True) 3
       (initialState id [mkRoomItem 1 2 10 False 1 False, mkRoomItem 2 2 10 False 1 False,
                         mkRoomItem 3 2 10 False 1 False, mkRoomItem 4 1 10 True 3 False])
     \<le> length (buildItemPool [mkRoomItem 1 2 10 False 1 False, mkRoomItem 2 2 10 False 1 False,
                         mkRoomItem 3 2 10 False 1 False, mkRoomItem 4 1 10 True 3 False])"
  by code_simp

text \<open>
  It also fails without the condition on \<open>maxRepeats\<close>: two repeatable assignments
  with \<open>maxRepeats = -1\<close> are skipped on every visit, which again leaves room for the
  entry that is pushed back.
\<close>

lemma loop_iterations_negative_maxRepeats:
  "\<not> drawLoopIterations (mkRoom 1 50 True) 3
       (initialState id [mkRoomItem 1 1 10 True (- 1) False, mkRoomItem 2 2 10 True (- 1) False,
                         mkRoomItem 3 3 10 False 1 False, mkRoomItem 4 4 10 True 3 False])
     \<le> length (buildItemPool [mkRoomItem 1 1 10 True (- 1) False, mkRoomItem 2 2 10 True (- 1) False,
                         mkRoomItem 3 3 10 False 1 False, mkRoomItem 4 4 10 True 3 False])"
  by code_simp

text \<open>
  C2, amended: for \<open>count \<le> 0\<close> the Item Drafter returns an empty sequence; the Room
  Selector (under a shuffle that permutes the weighted array) returns one room for
  every distinct room id with probability at least 1, hence an empty sequence only
  when there is no such room.
\<close>

theorem nonpositive_count:
  assumes "count \<le> 0"
    and perm: "isPermutationOf (shuffle (weightedRooms allRooms)) (weightedRooms allRooms)"
  shows "getRandomRoomItemsWithDetails shuffle' (Some room) allRoomItems count = Inr [] \<and>
         length (getRandomRooms shuffle allRooms count) =
           length (remdups (map room_id (filter (\<lambda>room. 1 \<le> room_probability room) allRooms)))"
proof
  show "getRandomRoomItemsWithDetails shuffle' (Some room) allRoomItems count = Inr []"
  proof (cases "int (length allRoomItems) \<le> count")
    case True
    with assms(1) have "allRoomItems = []" by (cases allRoomItems) auto
    with True show ?thesis by (simp add: getRandomRoomItemsWithDetails_def)
  next
    case False
    have "\<not> loopCond count (initialState shuffle' allRoomItems)"
      using assms(1) by (simp add: loopCond_def)
    then have "drawLoop room count (initialState shuffle' allRoomItems) = initialState shuffle' allRoomItems"
      by (simp add: drawLoop.simps)
    with False show ?thesis
      by (simp add: getRandomRoomItemsWithDetails_def initialState_def)
  qed
next
  show "length (getRandomRooms shuffle allRooms count) =
           length (remdups (map room_id (filter (\<lambda>room. 1 \<le> room_probability room) allRooms)))"
  proof (cases "int (length allRooms) \<le> count")
    case True
    with assms(1) have "allRooms = []" by (cases allRooms) auto
    with True show ?thesis by (simp add: getRandomRooms_def)
  next
    case False
    have "set (shuffle (weightedRooms allRooms)) =
          set (filter (\<lambda>room. 1 \<le> room_probability room) allRooms)"
      using isPermutationOf_set [OF perm] by (simp add: set_weightedRooms)
    then have "card (room_id ` set (shuffle (weightedRooms allRooms)) - {}) =
          length (remdups (map room_id (filter (\<lambda>room. 1 \<le> room_probability room) allRooms)))"
      by (simp add: length_remdups_card_conv)
    with False assms(1) selectLoop_length_above [of count "[]" "shuffle (weightedRooms allRooms)" "{}"]
    show ?thesis by (simp add: getRandomRooms_def)
  qed
qed


text \<open>Two rooms and \<open>count = -1\<close>: no item, both rooms.\<close>

theorem nonpositive_count_witness:
  "(- 1 :: int) \<le> 0 \<and>
   getRandomRoomItemsWithDetails rev (Some (mkRoom 1 2 True))
     [mkRoomItem 1 1 100 True 3 False, mkRoomItem 2 2 50 False 1 False] (- 1) = Inr [] \<and>
   length (getRandomRooms rev [mkRoom 1 2 True, mkRoom 2 3 True] (- 1)) = 2"
proof -
  let ?c = "[mkRoom 1 2 True, mkRoom 2 3 True]"
  have h1: "(- 1 :: int) \<le> 0" by simp
  have h2: "isPermutationOf (rev (weightedRooms ?c)) (weightedRooms ?c)"
    by (rule isPermutationOf_rev)
  from h1 nonpositive_count [of "- 1" rev ?c rev "mkRoom 1 2 True"
      "[mkRoomItem 1 1 100 True 3 False, mkRoomItem 2 2 50 False 1 False]", OF h1 h2]
  show ?thesis by (simp add: mkRoom_def)
qed

text \<open>With \<open>count = 0\<close> and a catalog of one room the Room Selector returns that room.\<close>

theorem nonpositive_count_counterexample:
  "getRandomRooms id [mkRoom 1 1 True] 0 \<noteq> []"
  by code_simp

text \<open>
  C8: the random source enters only through the shuffle of the replication pool. Two
  runs whose shuffles return the same arrangement of that pool give the same output,
  for the Room Selector and for the Item Drafter.
\<close>

theorem determinism_fixed_shuffle:
  assumes "shuffleA (weightedRooms allRooms) = shuffleB (weightedRooms allRooms)"
    and "itemShuffleA (buildItemPool allRoomItems) = itemShuffleB (buildItemPool allRoomItems)"
  shows "getRandomRooms shuffleA allRooms count = getRandomRooms shuffleB allRooms count \<and>
         getRandomRoomItemsWithDetails itemShuffleA roomOpt allRoomItems itemCount =
         getRandomRoomItemsWithDetails itemShuffleB roomOpt allRoomItems itemCount"
proof -
  have "initialState itemShuffleA allRoomItems = initialState itemShuffleB allRoomItems"
    using assms(2) by (simp add: initialState_def)
  with assms(1) show ?thesis
    by (cases roomOpt) (simp_all add: getRandomRooms_def getRandomRoomItemsWithDetails_def)
qed

text \<open>
  Reversal and rotation by one agree on a pool of two entries, and so do the two runs.
\<close>

theorem determinism_fixed_shuffle_witness:
  "rev (weightedRooms [mkRoom 1 1 True, mkRoom 2 1 True]) =
     rotate1 (weightedRooms [mkRoom 1 1 True, mkRoom 2 1 True]) \<and>
   rev (buildItemPool [mkRoomItem 1 1 10 True 1 False, mkRoomItem 2 2 10 True 1 False]) =
     rotate1 (buildItemPool [mkRoomItem 1 1 10 True 1 False, mkRoomItem 2 2 10 True 1 False]) \<and>
   getRandomRooms rev [mkRoom 1 1 True, mkRoom 2 1 True] 1 =
     getRandomRooms rotate1 [mkRoom 1 1 True, mkRoom 2 1 True] 1 \<and>
   getRandomRoomItemsWithDetails rev (Some (mkRoom 1 1 True))
     [mkRoomItem 1 1 10 True 1 False, mkRoomItem 2 2 10 True 1 False] 1 =
   getRandomRoomItemsWithDetails rotate1 (Some (mkRoom 1 1 True))
     [mkRoomItem 1 1 10 True 1 False, mkRoomItem 2 2 10 True 1 False] 1"
proof -
  let ?c = "[mkRoom 1 1 True, mkRoom 2 1 True]"
  let ?p = "[mkRoomItem 1 1 10 True 1 False, mkRoomItem 2 2 10 True 1 False]"
  have h1: "rev (weightedRooms ?c) = rotate1 (weightedRooms ?c)"
    by (simp add: weightedRooms_def mkRoom_def)
  have h2: "rev (buildItemPool ?p) = rotate1 (buildItemPool ?p)"
    by (simp add: buildItemPool_def copies_def mkRoomItem_def)
  from h1 h2
    determinism_fixed_shuffle [where shuffleA = rev and shuffleB = rotate1 and allRooms = ?c
      and itemShuffleA = rev and itemShuffleB = rotate1 and allRoomItems = ?p
      and count = 1 and roomOpt = "Some (mkRoom 1 1 True)" and itemCount = 1, OF h1 h2]
  show ?thesis by simp
qed

text \<open>
  C1: a guaranteed assignment is to appear whenever \<open>count\<close> is at least the number of
  guaranteed assignments. The database backend never reads \<open>isGuaranteed\<close>: on a pool
  of three assignments, the first guaranteed, with \<open>count = 1\<close> and the reversing
  shuffle, the result is the third assignment alone.
\<close>

theorem guaranteed_assignment_dropped:
  "getRandomRoomItemsWithDetails rev (Some (mkRoom 1 50 True))
     [mkRoomItem 1 1 100 True 1 True, mkRoomItem 2 2 100 True 1 False,
      mkRoomItem 3 3 100 True 1 False] 1 =
   Inr [mkRoomItem 3 3 100 True 1 False]"
  by code_simp

text \<open>The in-memory backend returns the guaranteed assignment on the same input.\<close>

lemma MemStorage_keeps_guaranteed:
  "MemStorage_getRandomRoomItemsWithDetails rev (Some (mkRoom 1 50 True))
     [mkRoomItem 1 1 100 True 1 True, mkRoomItem 2 2 100 True 1 False,
      mkRoomItem 3 3 100 True 1 False] 1 =
   Inr [mkRoomItem 1 1 100 True 1 True]"
  by code_simp


end
